theory Spec2Isabelle
  imports Complex_Main "HOL-Library.Word"
begin

section \<open>JavaScript values\<close>

text \<open>
  The module \<^verbatim>\<open>components/global/dom.js\<close> is a set of helpers over the browser's
  document and window. The embedding passes the host (document and window) explicitly
  and writes every implicit \<^verbatim>\<open>TypeError\<close> of the source as a result value.

  A JavaScript string is a sequence of UTF-16 code units; \<open>utf16\<close> writes an ASCII
  literal as such a sequence.
\<close>

type_synonym js_string = "16 word list"

definition utf16 :: "string \<Rightarrow> js_string" where
  "utf16 s = map of_char s"

type_synonym node = nat
type_synonym fnref = nat
type_synonym objref = nat

datatype js_error = TypeError | SyntaxError | InvalidCharacterError

datatype js_value =
    JUndefined
  | JNull
  | JBoolean bool
  | JNumber real
  | JNaN
  | JString js_string
  | JFunction fnref
  | JObject objref
  | JNode node
  | JRange objref

text \<open>ToBoolean of the language: what \<^verbatim>\<open>if (v)\<close>, \<^verbatim>\<open>!!v\<close>, \<^verbatim>\<open>a && b\<close> and \<^verbatim>\<open>a || b\<close> test.\<close>

fun ToBoolean :: "js_value \<Rightarrow> bool" where
  "ToBoolean JUndefined = False"
| "ToBoolean JNull = False"
| "ToBoolean (JBoolean b) = b"
| "ToBoolean (JNumber x) = (x \<noteq> 0)"
| "ToBoolean JNaN = False"
| "ToBoolean (JString s) = (s \<noteq> [])"
| "ToBoolean (JFunction f) = True"
| "ToBoolean (JObject a) = True"
| "ToBoolean (JNode n) = True"
| "ToBoolean (JRange r) = True"

section \<open>The host: document and window\<close>

record rect =
  rect_top :: real
  rect_right :: real
  rect_bottom :: real
  rect_left :: real
  rect_width :: real
  rect_height :: real

text \<open>
  What the helpers read from the browser. \<open>documentElement\<close> and \<open>body\<close> are
  \<open>None\<close> where the document has no such element (the property is \<^verbatim>\<open>null\<close>);
  \<open>devicePixelRatio\<close> is \<open>None\<close> where \<^verbatim>\<open>window\<close> has no property of that name;
  \<open>getBoundingClientRect\<close> is \<open>None\<close> for a node that has no such method (the
  document, a text node).
\<close>

record host =
  document :: node
  documentElement :: "node option"
  body :: "node option"
  parentNode :: "node \<Rightarrow> node option"
  scrollTop :: "node \<Rightarrow> real"
  scrollLeft :: "node \<Rightarrow> real"
  devicePixelRatio :: "js_value option"
  getBoundingClientRect :: "node \<Rightarrow> rect option"
  rangeBoundingClientRect :: "objref \<Rightarrow> rect"

text \<open>
  \<^verbatim>\<open>Node.prototype.contains(other)\<close> of the DOM standard: true when \<open>other\<close> is an
  inclusive descendant of the receiver, false otherwise, also for \<^verbatim>\<open>null\<close>.
\<close>

inductive inclusive_descendant :: "host \<Rightarrow> node \<Rightarrow> node \<Rightarrow> bool"
  for h :: host and this :: node where
  self: "inclusive_descendant h this this"
| child: "parentNode h n = Some p \<Longrightarrow> inclusive_descendant h this p
     \<Longrightarrow> inclusive_descendant h this n"

code_pred inclusive_descendant .

definition contains :: "host \<Rightarrow> node \<Rightarrow> node option \<Rightarrow> bool" where
  "contains h this other =
     (case other of None \<Rightarrow> False | Some n \<Rightarrow> inclusive_descendant h this n)"

section \<open>Geometry and measurement helpers\<close>

text \<open>
  \<^verbatim>\<open>
  export function isMounted(node) {
    if (node === document) {
      return true;
    }
    return node instanceof Node && document.documentElement.contains(node.parentNode);
  }
  \<close>
  Reading \<^verbatim>\<open>.contains\<close> of a missing root element raises.
\<close>

definition isMounted :: "host \<Rightarrow> js_value \<Rightarrow> js_error + bool" where
  "isMounted h node =
     (if node = JNode (document h) then Inr True
      else (case node of
              JNode n \<Rightarrow>
                (case documentElement h of
                   None \<Rightarrow> Inl TypeError
                 | Some html \<Rightarrow> Inr (contains h html (parentNode h n)))
            | _ \<Rightarrow> Inr False))"

text \<open>
  The spec's own words for a mounted node: reachable from the document's root element
  via parent links.
\<close>

definition parent_links :: "host \<Rightarrow> (node \<times> node) set" where
  "parent_links h = {(n, p). parentNode h n = Some p}"

definition reachable_via_parent_links :: "host \<Rightarrow> node \<Rightarrow> node \<Rightarrow> bool" where
  "reachable_via_parent_links h html n = ((n, html) \<in> (parent_links h)\<^sup>+)"

text \<open>
  \<^verbatim>\<open>
  const rectStub = {top: 0, right: 0, bottom: 0, left: 0, width: 0, height: 0};

  export function getRect(node) {
    if (node instanceof Range || isMounted(node)) {
      const {top, right, bottom, left, width, height} = node.getBoundingClientRect();
      return {top, right, bottom, left, width, height};
    } else {
      return Object.assign({}, rectStub);
    }
  }
  \<close>
  Rectangle objects live in a store: a reference is an index into \<open>heap\<close>. Loading the
  module allocates the stub; each object literal of \<open>getRect\<close> allocates a new object.
\<close>

record rect_store =
  heap :: "rect list"
  rectStub :: objref

definition zero_rect :: rect where
  "zero_rect = \<lparr>rect_top = 0, rect_right = 0, rect_bottom = 0, rect_left = 0,
                 rect_width = 0, rect_height = 0\<rparr>"

definition load_module :: "rect list \<Rightarrow> rect_store" where
  "load_module objs = \<lparr>heap = objs @ [zero_rect], rectStub = length objs\<rparr>"

definition new_object :: "rect \<Rightarrow> rect_store \<Rightarrow> objref \<times> rect_store" where
  "new_object r m = (length (heap m), m\<lparr>heap := heap m @ [r]\<rparr>)"

definition write_object :: "objref \<Rightarrow> rect \<Rightarrow> rect_store \<Rightarrow> rect_store" where
  "write_object a r m = m\<lparr>heap := (heap m)[a := r]\<rparr>"

definition getRect :: "host \<Rightarrow> js_value \<Rightarrow> rect_store \<Rightarrow> js_error + objref \<times> rect_store" where
  "getRect h node m =
     (case (case node of JRange r \<Rightarrow> Inr True | _ \<Rightarrow> isMounted h node) of
        Inl e \<Rightarrow> Inl e
      | Inr True \<Rightarrow>
          (case node of
             JRange r \<Rightarrow> Inr (new_object (rangeBoundingClientRect h r) m)
           | JNode n \<Rightarrow>
               (case getBoundingClientRect h n of
                  None \<Rightarrow> Inl TypeError
                | Some r \<Rightarrow> Inr (new_object r m))
           | _ \<Rightarrow> Inl TypeError)
      | Inr False \<Rightarrow> Inr (new_object (heap m ! rectStub m) m))"

text \<open>
  What callers can do between two calls: a caller holds references (\<open>held\<close>) to the
  objects that existed before the module was loaded, to the objects it creates and to
  the results of \<open>getRect\<close>, and can overwrite any object it holds.
\<close>

inductive store_reachable :: "rect_store \<Rightarrow> objref set \<Rightarrow> bool" where
  loaded: "store_reachable (load_module objs) {..<length objs}"
| measured: "store_reachable m held \<Longrightarrow> getRect h node m = Inr (a, m')
     \<Longrightarrow> store_reachable m' (insert a held)"
| created: "store_reachable m held \<Longrightarrow> new_object r m = (a, m')
     \<Longrightarrow> store_reachable m' (insert a held)"
| written: "store_reachable m held \<Longrightarrow> a \<in> held
     \<Longrightarrow> store_reachable (write_object a r m) held"

text \<open>
  \<^verbatim>\<open>
  export function getPixelRatio() {
    return 'devicePixelRatio' in window ? window.devicePixelRatio : 1;
  }
  \<close>
\<close>

definition getPixelRatio :: "host \<Rightarrow> js_value" where
  "getPixelRatio h =
     (case devicePixelRatio h of Some v \<Rightarrow> v | None \<Rightarrow> JNumber 1)"

text \<open>
  \<^verbatim>\<open>
  export function getDocumentScrollTop() {
    return (document.documentElement && document.documentElement.scrollTop) ||
      document.body.scrollTop;
  }
  \<close>
  \<open>root_and\<close> is the left operand: \<^verbatim>\<open>null\<close> without a root element, the root's
  offset otherwise (an element is truthy). Reading the offset of a missing body raises.
\<close>

definition root_and :: "host \<Rightarrow> (node \<Rightarrow> real) \<Rightarrow> js_value" where
  "root_and h offset =
     (case documentElement h of None \<Rightarrow> JNull | Some html \<Rightarrow> JNumber (offset html))"

definition or_body :: "host \<Rightarrow> (node \<Rightarrow> real) \<Rightarrow> js_value \<Rightarrow> js_error + js_value" where
  "or_body h offset v =
     (if ToBoolean v then Inr v
      else (case body h of None \<Rightarrow> Inl TypeError | Some b \<Rightarrow> Inr (JNumber (offset b))))"

definition getDocumentScrollTop :: "host \<Rightarrow> js_error + js_value" where
  "getDocumentScrollTop h = or_body h (scrollTop h) (root_and h (scrollTop h))"

definition getDocumentScrollLeft :: "host \<Rightarrow> js_error + js_value" where
  "getDocumentScrollLeft h = or_body h (scrollLeft h) (root_and h (scrollLeft h))"

section \<open>Class list helpers\<close>

text \<open>
  The characters the regular expression class \<^verbatim>\<open>\s\<close> matches: the language's
  WhiteSpace and LineTerminator code units.
\<close>

definition isWhiteSpace :: "16 word \<Rightarrow> bool" where
  "isWhiteSpace c = (c \<in> set [0x9, 0xA, 0xB, 0xC, 0xD, 0x20, 0xA0, 0x1680,
     0x2000, 0x2001, 0x2002, 0x2003, 0x2004, 0x2005, 0x2006, 0x2007, 0x2008, 0x2009, 0x200A,
     0x2028, 0x2029, 0x202F, 0x205F, 0x3000, 0xFEFF])"

text \<open>
  \<^verbatim>\<open>classes.split(/\s+/g)\<close>: the pieces of the string between the maximal runs of
  whitespace. A string that starts or ends with whitespace has an empty first or last
  piece, and the empty string splits into one empty piece. \<open>cur\<close> holds the piece
  being read, reversed.
\<close>

function split_whitespace :: "js_string \<Rightarrow> js_string \<Rightarrow> js_string list" where
  "split_whitespace cur [] = [rev cur]"
| "split_whitespace cur (c # cs) =
     (if isWhiteSpace c then rev cur # split_whitespace [] (dropWhile isWhiteSpace cs)
      else split_whitespace (c # cur) cs)"
  by pat_completeness auto
termination
  by (relation "measure (\<lambda>(cur, s). length s)")
     (auto simp: less_Suc_eq_le length_dropWhile_le)

definition split :: "js_string \<Rightarrow> js_string list" where
  "split classes = split_whitespace [] classes"

text \<open>\<^verbatim>\<open>Array.prototype.forEach\<close> with a callback that may raise: the first error ends the loop.\<close>

fun forEach :: "('a \<Rightarrow> 's \<Rightarrow> js_error + 's) \<Rightarrow> 'a list \<Rightarrow> 's \<Rightarrow> js_error + 's" where
  "forEach f [] s = Inr s"
| "forEach f (x # xs) s = (case f x s of Inl e \<Rightarrow> Inl e | Inr s' \<Rightarrow> forEach f xs s')"

text \<open>
  A class-list handle is an object with a state and methods looked up by name;
  \<^verbatim>\<open>classList[method](className)\<close> raises where the handle has no such method.
\<close>

record 'st classList =
  tokens :: 'st
  methods :: "js_string \<Rightarrow> (js_string \<Rightarrow> 'st \<Rightarrow> js_error + 'st) option"

definition invoke :: "js_string \<Rightarrow> js_string \<Rightarrow> 'st classList \<Rightarrow> js_error + 'st classList" where
  "invoke method className classList =
     (case methods classList method of
        None \<Rightarrow> Inl TypeError
      | Some f \<Rightarrow>
          (case f className (tokens classList) of
             Inl e \<Rightarrow> Inl e
           | Inr st \<Rightarrow> Inr (classList\<lparr>tokens := st\<rparr>)))"

text \<open>
  \<^verbatim>\<open>
  export const applyMethodToClasses = method => (classList, classes = '') => {
    classes.
      split(/\s+/g).
      filter(className => !!className).
      forEach(className => classList[method](className));
  };

  export const addClasses = applyMethodToClasses('add');
  export const removeClasses = applyMethodToClasses('remove');
  \<close>
  \<open>classes\<close> is \<open>None\<close> where the argument is \<^verbatim>\<open>undefined\<close> or left out: the default
  parameter applies.
\<close>

definition applyMethodToClasses ::
  "js_string \<Rightarrow> 'st classList \<Rightarrow> js_string option \<Rightarrow> js_error + 'st classList" where
  "applyMethodToClasses method classList classes =
     forEach (\<lambda>className. invoke method className)
       (filter (\<lambda>className. ToBoolean (JString className))
          (split (case classes of None \<Rightarrow> [] | Some c \<Rightarrow> c)))
       classList"

definition addClasses :: "'st classList \<Rightarrow> js_string option \<Rightarrow> js_error + 'st classList" where
  "addClasses = applyMethodToClasses (utf16 ''add'')"

definition removeClasses :: "'st classList \<Rightarrow> js_string option \<Rightarrow> js_error + 'st classList" where
  "removeClasses = applyMethodToClasses (utf16 ''remove'')"

text \<open>
  The spec's own words for the tokens of a class spec: split on runs of whitespace,
  empty tokens discarded. These are the maximal runs of characters that are not whitespace.
\<close>

function class_tokens :: "js_string \<Rightarrow> js_string list" where
  "class_tokens s =
     (case dropWhile isWhiteSpace s of
        [] \<Rightarrow> []
      | c # cs \<Rightarrow> takeWhile (\<lambda>x. \<not> isWhiteSpace x) (c # cs)
                 # class_tokens (dropWhile (\<lambda>x. \<not> isWhiteSpace x) (c # cs)))"
  by pat_completeness auto
termination
proof (relation "measure length")
  fix s c cs
  assume d: "dropWhile isWhiteSpace s = c # cs"
  then have "\<not> isWhiteSpace c"
    by (metis hd_dropWhile list.distinct(1) list.sel(1))
  then have "length (dropWhile (\<lambda>x. \<not> isWhiteSpace x) (c # cs)) \<le> length cs"
    by (simp add: length_dropWhile_le)
  moreover have "length (c # cs) \<le> length s"
    using length_dropWhile_le [of isWhiteSpace s] d by simp
  ultimately show "(dropWhile (\<lambda>x. \<not> isWhiteSpace x) (c # cs), s) \<in> measure length"
    by simp
qed simp

text \<open>
  Two handles. A recording handle keeps the calls it receives, whatever the method.
  A \<^verbatim>\<open>DOMTokenList\<close> takes one token per call: the empty token and a token holding
  ASCII whitespace are refused, \<^verbatim>\<open>add\<close> appends a token that is not there yet and
  \<^verbatim>\<open>remove\<close> deletes it.
\<close>

definition recording :: "(js_string \<times> js_string) list classList" where
  "recording = \<lparr>tokens = [],
     methods = (\<lambda>name. Some (\<lambda>arg calls. Inr (calls @ [(name, arg)])))\<rparr>"

definition check_token :: "js_string \<Rightarrow> js_error option" where
  "check_token t =
     (if t = [] then Some SyntaxError
      else if \<exists>c \<in> set t. c \<in> set [0x9, 0xA, 0xC, 0xD, 0x20] then Some InvalidCharacterError
      else None)"

definition token_add :: "js_string \<Rightarrow> js_string list \<Rightarrow> js_error + js_string list" where
  "token_add t ts =
     (case check_token t of
        Some e \<Rightarrow> Inl e
      | None \<Rightarrow> Inr (if t \<in> set ts then ts else ts @ [t]))"

definition token_remove :: "js_string \<Rightarrow> js_string list \<Rightarrow> js_error + js_string list" where
  "token_remove t ts =
     (case check_token t of
        Some e \<Rightarrow> Inl e
      | None \<Rightarrow> Inr (removeAll t ts))"

definition DOMTokenList :: "js_string list \<Rightarrow> js_string list classList" where
  "DOMTokenList ts = \<lparr>tokens = ts,
     methods = (\<lambda>name. if name = utf16 ''add'' then Some token_add
                        else if name = utf16 ''remove'' then Some token_remove
                        else None)\<rparr>"

section \<open>Listener registry\<close>

text \<open>
  The platform's event listeners. A listener is identified by its target, its event
  type, its callback and its capture flag; \<^verbatim>\<open>addEventListener\<close> appends a listener that
  is not in the list yet, \<^verbatim>\<open>removeEventListener\<close> removes the one that matches. The
  third argument is \<open>None\<close> where \<^verbatim>\<open>useCapture\<close> is \<^verbatim>\<open>undefined\<close>, which the
  platform reads as \<^verbatim>\<open>false\<close>.
\<close>

type_synonym element = nat
type_synonym listener = "element \<times> js_string \<times> fnref \<times> bool"

definition flatten :: "bool option \<Rightarrow> bool" where
  "flatten useCapture = (case useCapture of None \<Rightarrow> False | Some b \<Rightarrow> b)"

definition addEventListener ::
  "element \<Rightarrow> js_string \<Rightarrow> fnref \<Rightarrow> bool option \<Rightarrow> listener list \<Rightarrow> listener list" where
  "addEventListener el event handler useCapture ls =
     (if (el, event, handler, flatten useCapture) \<in> set ls then ls
      else ls @ [(el, event, handler, flatten useCapture)])"

definition removeEventListener ::
  "element \<Rightarrow> js_string \<Rightarrow> fnref \<Rightarrow> bool option \<Rightarrow> listener list \<Rightarrow> listener list" where
  "removeEventListener el event handler useCapture ls =
     removeAll (el, event, handler, flatten useCapture) ls"



text \<open>
  A \<^verbatim>\<open>Set\<close> as the language defines it: the list of its entries in insertion order,
  where \<^verbatim>\<open>delete\<close> leaves an empty slot (\<open>None\<close>) in the place of the entry.
\<close>

type_synonym 'a js_set = "'a option list"

definition set_add :: "'a \<Rightarrow> 'a js_set \<Rightarrow> 'a js_set" where
  "set_add v S = (if Some v \<in> set S then S else S @ [Some v])"

definition set_delete :: "'a \<Rightarrow> 'a js_set \<Rightarrow> 'a js_set" where
  "set_delete v S = map (\<lambda>e. if e = Some v then None else e) S"

definition set_has :: "'a \<Rightarrow> 'a js_set \<Rightarrow> bool" where
  "set_has v S = (Some v \<in> set S)"

definition set_values :: "'a js_set \<Rightarrow> 'a list" where
  "set_values S = map the (filter (\<lambda>e. e \<noteq> None) S)"

definition set_size :: "'a js_set \<Rightarrow> nat" where
  "set_size S = length (set_values S)"

text \<open>
  \<^verbatim>\<open>
  export class Listeners {
    _all = new Set();

    add(el, event, handler, useCapture) {
      el.addEventListener(event, handler, useCapture);
      const dispatchFn = () => el.removeEventListener(event, handler, useCapture);
      this._all.add(dispatchFn);
      return dispatchFn;
    }

    remove(fn) {
      fn();
      this._all.delete(fn);
    }

    removeAll() {
      this._all.forEach(fn => this.remove(fn));
    }
  }
  \<close>
  The state is the platform's listeners, the function objects \<open>add\<close> has created (a
  reference to one is its index in \<open>closures\<close>, so two closures are two references
  even when they capture the same values) and the registry's \<open>_all\<close>.
\<close>

datatype closure = DispatchFn element js_string fnref "bool option"

record state =
  listeners :: "listener list"
  closures :: "closure list"
  all :: "fnref js_set"

definition add ::
  "element \<Rightarrow> js_string \<Rightarrow> fnref \<Rightarrow> bool option \<Rightarrow> state \<Rightarrow> fnref \<times> state" where
  "add el event handler useCapture s =
     (let s1 = s\<lparr>listeners := addEventListener el event handler useCapture (listeners s)\<rparr>;
          dispatchFn = length (closures s1);
          s2 = s1\<lparr>closures := closures s1 @ [DispatchFn el event handler useCapture]\<rparr>;
          s3 = s2\<lparr>all := set_add dispatchFn (all s2)\<rparr>
      in (dispatchFn, s3))"

text \<open>Calling \<open>fn()\<close>: a value that is not a function raises.\<close>

definition call :: "fnref \<Rightarrow> state \<Rightarrow> js_error + state" where
  "call fn s =
     (if fn < length (closures s) then
        (case closures s ! fn of
           DispatchFn el event handler useCapture \<Rightarrow>
             Inr (s\<lparr>listeners := removeEventListener el event handler useCapture (listeners s)\<rparr>))
      else Inl TypeError)"

definition remove :: "fnref \<Rightarrow> state \<Rightarrow> js_error + state" where
  "remove fn s =
     (case call fn s of
        Inl e \<Rightarrow> Inl e
      | Inr s' \<Rightarrow> Inr (s'\<lparr>all := set_delete fn (all s')\<rparr>))"

text \<open>
  \<^verbatim>\<open>Set.prototype.forEach\<close> reads the entries by index from the live list, skips the
  empty slots and goes on while the index is below the list's current length.
\<close>

function forEach_remove :: "nat \<Rightarrow> state \<Rightarrow> js_error + state" where
  "forEach_remove index s =
     (if index < length (all s) then
        (case all s ! index of
           None \<Rightarrow> forEach_remove (Suc index) s
         | Some fn \<Rightarrow>
             (case remove fn s of
                Inl e \<Rightarrow> Inl e
              | Inr s' \<Rightarrow> forEach_remove (Suc index) s'))
      else Inr s)"
  by pat_completeness auto
termination
proof (relation "measure (\<lambda>(index, s). length (all s) - index)")
  fix index :: nat and s s' :: state and fn
  assume "index < length (all s)" and "remove fn s = Inr s'"
  then show "((Suc index, s'), (index, s)) \<in> measure (\<lambda>(index, s). length (all s) - index)"
    by (auto simp: remove_def call_def set_delete_def split: if_splits closure.splits)
qed auto

definition removeAll_listeners :: "state \<Rightarrow> js_error + state" where
  "removeAll_listeners s = forEach_remove 0 s"

section \<open>Defensive event helper\<close>




section \<open>Invariants and example inputs\<close>

text \<open>
  The stub is allocated, holds zeros and is not among the references callers hold;
  every reference callers hold is allocated.
\<close>

definition stub_kept :: "rect_store \<Rightarrow> objref set \<Rightarrow> bool" where
  "stub_kept m held \<longleftrightarrow>
     rectStub m < length (heap m) \<and> heap m ! rectStub m = zero_rect \<and>
     rectStub m \<notin> held \<and> held \<subseteq> {..<length (heap m)}"

text \<open>
  A page: the document \<open>0\<close>, its root element \<open>1\<close>, the body \<open>2\<close> with a child \<open>3\<close>,
  and a detached element \<open>4\<close> with a child \<open>5\<close>.
\<close>

definition page :: host where
  "page = \<lparr>document = 0, documentElement = Some 1, body = Some 2,
     parentNode = (\<lambda>n. if n = 1 then Some 0 else if n = 2 then Some 1 else if n = 3 then Some 2
                        else if n = 5 then Some 4 else None),
     scrollTop = (\<lambda>n. if n = 2 then 120 else 0),
     scrollLeft = (\<lambda>n. if n = 1 then 35 else 8),
     devicePixelRatio = Some (JNumber 2),
     getBoundingClientRect = (\<lambda>n. if n = 0 then None else Some \<lparr>rect_top = 10, rect_right = 110, rect_bottom = 60, rect_left = 10,
                 rect_width = 100, rect_height = 50\<rparr>),
     rangeBoundingClientRect = (\<lambda>r. zero_rect)\<rparr>"




section \<open>The registry: tracked actions and reachable states\<close>

text \<open>
  The listener an unsubscribe action reverses, the actions the registry tracks (the
  entries of \<open>_all\<close> in insertion order) and the listeners they stand for.
\<close>

definition key_of :: "closure \<Rightarrow> listener" where
  "key_of c =
     (case c of DispatchFn el event handler useCapture \<Rightarrow>
        (el, event, handler, flatten useCapture))"

definition subscription :: "state \<Rightarrow> fnref \<Rightarrow> listener" where
  "subscription s fn = key_of (closures s ! fn)"

definition tracked :: "state \<Rightarrow> fnref list" where
  "tracked s = set_values (all s)"

definition tracked_keys :: "state \<Rightarrow> listener list" where
  "tracked_keys s = map (subscription s) (tracked s)"

text \<open>
  What the platform and the language guarantee of any state: a listener list holds a
  listener once, a \<^verbatim>\<open>Set\<close> holds a value once, and every tracked reference is
  a function object that exists.
\<close>

definition wf_state :: "state \<Rightarrow> bool" where
  "wf_state s \<longleftrightarrow>
     distinct (listeners s) \<and> distinct (tracked s) \<and>
     (\<forall>fn \<in> set (tracked s). fn < length (closures s))"

text \<open>
  The states of a registry: \<^verbatim>\<open>new Listeners()\<close> on any platform, then any calls of
  its three methods and, since a handle is a function the caller holds, any call of a
  handle.
\<close>

inductive reachable :: "state \<Rightarrow> bool" where
  created: "all s = [] \<Longrightarrow> distinct (listeners s) \<Longrightarrow> reachable s"
| added: "reachable s \<Longrightarrow> add el event handler useCapture s = (fn, s') \<Longrightarrow> reachable s'"
| removed: "reachable s \<Longrightarrow> remove fn s = Inr s' \<Longrightarrow> reachable s'"
| removedAll: "reachable s \<Longrightarrow> removeAll_listeners s = Inr s' \<Longrightarrow> reachable s'"
| invoked: "reachable s \<Longrightarrow> call fn s = Inr s' \<Longrightarrow> reachable s'"





text \<open>A new registry on a platform without listeners.\<close>

definition new_registry :: state where
  "new_registry = \<lparr>listeners = [], closures = [], all = []\<rparr>"













section \<open>Mounted nodes\<close>

lemma inclusive_descendant_rtrancl:
  "inclusive_descendant h this n \<longleftrightarrow> (n, this) \<in> (parent_links h)\<^sup>*"
proof
  assume "inclusive_descendant h this n"
  then show "(n, this) \<in> (parent_links h)\<^sup>*"
  proof (induction rule: inclusive_descendant.induct)
    case self
    show ?case by simp
  next
    case (child n p)
    then have "(n, p) \<in> parent_links h" by (simp add: parent_links_def)
    with child.IH show ?case by (rule converse_rtrancl_into_rtrancl [rotated])
  qed
next
  assume "(n, this) \<in> (parent_links h)\<^sup>*"
  then show "inclusive_descendant h this n"
  proof (induction rule: converse_rtrancl_induct)
    case base
    show ?case by (rule inclusive_descendant.self)
  next
    case (step y z)
    then show ?case by (auto simp: parent_links_def intro: inclusive_descendant.child)
  qed
qed

lemma contains_parent_reachable:
  "contains h html (parentNode h n) \<longleftrightarrow> reachable_via_parent_links h html n"
proof -
  have "reachable_via_parent_links h html n \<longleftrightarrow>
          (\<exists>p. (n, p) \<in> parent_links h \<and> (p, html) \<in> (parent_links h)\<^sup>*)"
    unfolding reachable_via_parent_links_def by (metis tranclD rtrancl_into_trancl2)
  then show ?thesis
    by (auto simp: contains_def inclusive_descendant_rtrancl parent_links_def split: option.splits)
qed

lemma descendant_of_parent:
  assumes "inclusive_descendant h html p" and "parentNode h html = Some d"
  shows "inclusive_descendant h d p"
  using assms
proof (induction rule: inclusive_descendant.induct)
  case self
  then show ?case
    by (blast intro: inclusive_descendant.intros)
next
  case (child n p)
  then show ?case
    by (blast intro: inclusive_descendant.intros)
qed

lemma isMounted_contains:
  "documentElement h = Some html \<Longrightarrow>
   isMounted h node =
     Inr (node = JNode (document h) \<or> (\<exists>n. node = JNode n \<and> contains h html (parentNode h n)))"
  by (cases node) (auto simp: isMounted_def)

text \<open>
  Claim C2. \<open>isMounted(document)\<close> is true whatever the document holds. In a document
  with a root element, \<open>isMounted(node)\<close> is true exactly when \<open>node\<close> is the document
  or a tree node reachable from the root element via parent links (one link or more:
  its parent is the root element or lies below it). A node with no parent yields
  false, and so does a node whose parent is outside the document's tree.
\<close>

theorem isMounted_iff_reachable:
  "isMounted h (JNode (document h)) = Inr True \<and>
   (documentElement h = Some html \<longrightarrow>
      isMounted h node =
        Inr (node = JNode (document h) \<or>
             (\<exists>n. node = JNode n \<and> reachable_via_parent_links h html n)) \<and>
      (node = JNode n \<and> n \<noteq> document h \<longrightarrow>
         isMounted h node =
           Inr (\<exists>p. parentNode h n = Some p \<and> inclusive_descendant h html p)) \<and>
      (node = JNode n \<and> n \<noteq> document h \<and> parentNode h n = None \<longrightarrow>
         isMounted h node = Inr False) \<and>
      (node = JNode n \<and> n \<noteq> document h \<and> parentNode h n = Some p \<and>
       parentNode h html = Some (document h) \<and> \<not> inclusive_descendant h (document h) p \<longrightarrow>
         isMounted h node = Inr False))"
proof (intro conjI impI)
  show "isMounted h (JNode (document h)) = Inr True"
    by (simp add: isMounted_def)
next
  assume "documentElement h = Some html"
  then show "isMounted h node =
        Inr (node = JNode (document h) \<or>
             (\<exists>n. node = JNode n \<and> reachable_via_parent_links h html n))"
    by (simp add: isMounted_contains contains_parent_reachable)
next
  assume "documentElement h = Some html" and "node = JNode n \<and> n \<noteq> document h"
  then show "isMounted h node =
           Inr (\<exists>p. parentNode h n = Some p \<and> inclusive_descendant h html p)"
    by (auto simp: isMounted_contains contains_def split: option.splits)
next
  assume "documentElement h = Some html"
    and "node = JNode n \<and> n \<noteq> document h \<and> parentNode h n = None"
  then show "isMounted h node = Inr False"
    by (simp add: isMounted_contains contains_def)
next
  assume "documentElement h = Some html"
    and *: "node = JNode n \<and> n \<noteq> document h \<and> parentNode h n = Some p \<and>
       parentNode h html = Some (document h) \<and> \<not> inclusive_descendant h (document h) p"
  then have "\<not> inclusive_descendant h html p"
    using descendant_of_parent by blast
  with \<open>documentElement h = Some html\<close> * show "isMounted h node = Inr False"
    by (simp add: isMounted_contains contains_def)
qed

lemma page_not_below_html: "inclusive_descendant page 1 n \<Longrightarrow> n \<in> {1, 2, 3}"
  by (induction rule: inclusive_descendant.induct) (auto simp: page_def split: if_splits)

theorem isMounted_iff_reachable_witness:
  "documentElement page = Some 1 \<and>
   isMounted page (JNode 0) = Inr True \<and>
   isMounted page (JNode 3) = Inr True \<and> reachable_via_parent_links page 1 3 \<and>
   isMounted page (JNode 1) = Inr False \<and> \<not> reachable_via_parent_links page 1 1 \<and>
   isMounted page (JNode 4) = Inr False \<and>
   isMounted page (JNode 5) = Inr False \<and>
   isMounted page JNull = Inr False"
proof -
  have root: "documentElement page = Some 1" and doc: "document page = 0"
    by (simp_all add: page_def)
  have up: "parentNode page 3 = Some 2" "parentNode page 2 = Some 1"
    "parentNode page 1 = Some 0" "parentNode page 0 = None"
    "parentNode page 4 = None" "parentNode page 5 = Some 4"
    by (simp_all add: page_def)
  have in2: "inclusive_descendant page 1 2"
    by (rule inclusive_descendant.child [OF up(2) inclusive_descendant.self])
  have out0: "\<not> inclusive_descendant page 1 0" and out4: "\<not> inclusive_descendant page 1 4"
    using page_not_below_html by fastforce+
  note always = isMounted_iff_reachable [of page, THEN conjunct1]
  note rooted = isMounted_iff_reachable [of page 1, THEN conjunct2, THEN mp, OF root]
  note reach = rooted [THEN conjunct1]
  note chain = rooted [THEN conjunct2, THEN conjunct1, THEN mp]
  have m0: "isMounted page (JNode 0) = Inr True"
    using always doc by simp
  have m3: "isMounted page (JNode 3) = Inr True"
    using chain [of "JNode 3" 3] doc up in2 by simp
  have r3: "reachable_via_parent_links page 1 3"
    using reach [of "JNode 3"] m3 doc by simp
  have m1: "isMounted page (JNode 1) = Inr False"
    using chain [of "JNode 1" 1] doc up out0 by simp
  have r1: "\<not> reachable_via_parent_links page 1 1"
    using reach [of "JNode 1"] m1 doc by simp
  have m4: "isMounted page (JNode 4) = Inr False"
    using chain [of "JNode 4" 4] doc up by simp
  have m5: "isMounted page (JNode 5) = Inr False"
    using chain [of "JNode 5" 5] doc up out4 by simp
  have mn: "isMounted page JNull = Inr False"
    using reach [of JNull] by simp
  from root m0 m3 r3 m1 r1 m4 m5 mn show ?thesis
    by simp
qed

section \<open>Bounding rectangle of a detached node\<close>

lemma getRect_allocates:
  assumes "getRect h node m = Inr (a, m')"
  shows "a = length (heap m) \<and> (\<exists>r. m' = m\<lparr>heap := heap m @ [r]\<rparr>)"
  using assms
  by (auto simp: getRect_def new_object_def
           split: sum.splits bool.splits js_value.splits option.splits)

lemma stub_kept_new_object:
  assumes "stub_kept m held"
  shows "stub_kept (m\<lparr>heap := heap m @ [r]\<rparr>) (insert (length (heap m)) held)"
  using assms by (auto simp: stub_kept_def nth_append)

lemma store_reachable_stub_kept: "store_reachable m held \<Longrightarrow> stub_kept m held"
proof (induction rule: store_reachable.induct)
  case (loaded objs)
  show ?case by (simp add: stub_kept_def load_module_def)
next
  case (measured m held h node a m')
  from getRect_allocates [OF measured.hyps(2)] measured.IH show ?case
    by (auto intro: stub_kept_new_object)
next
  case (created m held r a m')
  then show ?case
    by (auto simp: new_object_def intro: stub_kept_new_object)
next
  case (written m held a r)
  then have "a \<noteq> rectStub m" by (auto simp: stub_kept_def)
  with written.IH show ?case
    by (auto simp: stub_kept_def write_object_def)
qed

lemma getRect_detached:
  assumes "isMounted h node = Inr False" and "\<forall>r. node \<noteq> JRange r"
  shows "getRect h node m = Inr (length (heap m), m\<lparr>heap := heap m @ [heap m ! rectStub m]\<rparr>)"
  using assms by (cases node) (simp_all add: getRect_def new_object_def)

text \<open>
  Claim C3. In every state of the module's store that callers can bring about, \<open>getRect\<close>
  of a detached node (not mounted, not a range) returns a new object that holds
  exactly zeros: it is none of the objects callers hold and it is not the stub. A second
  call returns another object with the same contents, and overwriting the first result
  changes neither the second nor what a later call returns.
\<close>

theorem getRect_detached_fresh_zero:
  assumes "store_reachable m held"
    and "isMounted h node = Inr False" and "\<forall>r. node \<noteq> JRange r"
  shows "\<exists>a m' b m''.
           getRect h node m = Inr (a, m') \<and> heap m' ! a = zero_rect \<and>
           a \<notin> held \<and> a \<noteq> rectStub m' \<and>
           getRect h node m' = Inr (b, m'') \<and> b \<noteq> a \<and>
           heap m'' ! a = zero_rect \<and> heap m'' ! b = zero_rect \<and>
           (\<forall>r. heap (write_object a r m'') ! a = r \<and>
                heap (write_object a r m'') ! b = zero_rect \<and>
                (\<exists>c m3. getRect h node (write_object a r m') = Inr (c, m3) \<and>
                        heap m3 ! c = zero_rect))"
proof -
  let ?a = "length (heap m)"
  let ?m' = "m\<lparr>heap := heap m @ [heap m ! rectStub m]\<rparr>"
  let ?b = "length (heap ?m')"
  let ?m'' = "?m'\<lparr>heap := heap ?m' @ [heap ?m' ! rectStub ?m']\<rparr>"
  from store_reachable_stub_kept [OF assms(1)]
  have stub: "rectStub m < length (heap m)" "heap m ! rectStub m = zero_rect"
    and held: "held \<subseteq> {..<length (heap m)}"
    by (simp_all add: stub_kept_def)
  have first: "getRect h node m = Inr (?a, ?m')"
    and second: "getRect h node ?m' = Inr (?b, ?m'')"
    using assms(2,3) by (rule getRect_detached)+
  have third: "getRect h node (write_object ?a r ?m') =
      Inr (length (heap (write_object ?a r ?m')),
           (write_object ?a r ?m')\<lparr>heap := heap (write_object ?a r ?m') @ [zero_rect]\<rparr>)" for r
    using getRect_detached [OF assms(2,3), of "write_object ?a r ?m'"] stub
    by (simp add: write_object_def nth_append)
  have "heap ?m' ! ?a = zero_rect" "?a \<notin> held" "?a \<noteq> rectStub ?m'" "?b \<noteq> ?a"
    "heap ?m'' ! ?a = zero_rect" "heap ?m'' ! ?b = zero_rect"
    using stub held by (auto simp: nth_append)
  moreover have "heap (write_object ?a r ?m'') ! ?a = r"
    "heap (write_object ?a r ?m'') ! ?b = zero_rect" for r
    using stub by (simp_all add: write_object_def nth_append)
  moreover have "\<exists>c m3. getRect h node (write_object ?a r ?m') = Inr (c, m3) \<and>
                        heap m3 ! c = zero_rect" for r
    using third [of r] by (simp add: write_object_def nth_append)
  ultimately show ?thesis
    using first second by blast
qed

theorem getRect_detached_fresh_zero_witness:
  "store_reachable (load_module []) {} \<and> isMounted page (JNode 5) = Inr False \<and>
   (\<exists>a m' b m''.
      getRect page (JNode 5) (load_module []) = Inr (a, m') \<and> heap m' ! a = zero_rect \<and>
      a \<noteq> rectStub m' \<and>
      getRect page (JNode 5) m' = Inr (b, m'') \<and> b \<noteq> a \<and>
      heap m'' ! a = zero_rect \<and> heap m'' ! b = zero_rect)"
proof -
  have r: "store_reachable (load_module []) {}"
    using store_reachable.loaded [of "[]"] by simp
  have "\<not> inclusive_descendant page 1 4"
  proof
    assume "inclusive_descendant page 1 4"
    then show False
      by (cases rule: inclusive_descendant.cases) (simp_all add: page_def)
  qed
  then have d: "isMounted page (JNode 5) = Inr False"
    by (simp add: isMounted_def page_def contains_def)
  have n: "\<forall>r. JNode 5 \<noteq> JRange r"
    by simp
  from getRect_detached_fresh_zero [OF r d n] r d show ?thesis
    by blast
qed

section \<open>Scroll offsets, pixel ratio and the event helper\<close>

lemma or_body_truthy: "ToBoolean v \<Longrightarrow> or_body h offset v = Inr v"
  by (simp add: or_body_def)

lemma or_body_falsy:
  "\<not> ToBoolean v \<Longrightarrow> body h = Some b \<Longrightarrow> or_body h offset v = Inr (JNumber (offset b))"
  by (simp add: or_body_def)

text \<open>
  Claim C6. \<open>getDocumentScrollTop\<close> and \<open>getDocumentScrollLeft\<close> return the root
  element's offset when it is truthy, and the body element's offset when the root
  element is absent or its offset is falsy.
\<close>

theorem scroll_prefers_root_else_body:
  "(documentElement h = Some html \<and> ToBoolean (JNumber (scrollTop h html)) \<longrightarrow>
      getDocumentScrollTop h = Inr (JNumber (scrollTop h html))) \<and>
   ((documentElement h = None \<or>
     documentElement h = Some html \<and> \<not> ToBoolean (JNumber (scrollTop h html))) \<and>
    body h = Some b \<longrightarrow>
      getDocumentScrollTop h = Inr (JNumber (scrollTop h b))) \<and>
   (documentElement h = Some html \<and> ToBoolean (JNumber (scrollLeft h html)) \<longrightarrow>
      getDocumentScrollLeft h = Inr (JNumber (scrollLeft h html))) \<and>
   ((documentElement h = None \<or>
     documentElement h = Some html \<and> \<not> ToBoolean (JNumber (scrollLeft h html))) \<and>
    body h = Some b \<longrightarrow>
      getDocumentScrollLeft h = Inr (JNumber (scrollLeft h b)))"
proof -
  have top: "getDocumentScrollTop h = or_body h (scrollTop h) (root_and h (scrollTop h))"
    and left: "getDocumentScrollLeft h = or_body h (scrollLeft h) (root_and h (scrollLeft h))"
    by (simp_all add: getDocumentScrollTop_def getDocumentScrollLeft_def)
  have present: "documentElement h = Some html \<Longrightarrow> root_and h offset = JNumber (offset html)"
    and absent: "documentElement h = None \<Longrightarrow> root_and h offset = JNull" for offset
    by (simp_all add: root_and_def)
  show ?thesis
    unfolding top left
    by (intro conjI impI; elim conjE disjE)
       (simp_all add: present absent or_body_truthy or_body_falsy)
qed

theorem scroll_prefers_root_else_body_witness:
  "getDocumentScrollTop page = Inr (JNumber 120) \<and>
   getDocumentScrollLeft page = Inr (JNumber 35) \<and>
   getDocumentScrollLeft (page\<lparr>documentElement := None\<rparr>) = Inr (JNumber 8)"
proof -
  have "getDocumentScrollTop page = Inr (JNumber 120)"
    using scroll_prefers_root_else_body [of page 1 2, THEN conjunct2, THEN conjunct1]
    by (simp add: page_def)
  moreover have "getDocumentScrollLeft page = Inr (JNumber 35)"
    using scroll_prefers_root_else_body [of page 1 2]
    by (simp add: page_def)
  moreover have "getDocumentScrollLeft (page\<lparr>documentElement := None\<rparr>) = Inr (JNumber 8)"
    using scroll_prefers_root_else_body [of "page\<lparr>documentElement := None\<rparr>" 1 2]
    by (simp add: page_def)
  ultimately show ?thesis by simp
qed

text \<open>
  Claim C7. \<open>getPixelRatio\<close> returns exactly 1 when the window has no
  \<open>devicePixelRatio\<close> property, and the value the host reports otherwise.
\<close>

theorem getPixelRatio_feature_check:
  "(devicePixelRatio h = None \<longrightarrow> getPixelRatio h = JNumber 1) \<and>
   (devicePixelRatio h = Some v \<longrightarrow> getPixelRatio h = v)"
  by (simp add: getPixelRatio_def)

theorem getPixelRatio_feature_check_witness:
  "getPixelRatio page = JNumber 2 \<and> getPixelRatio (page\<lparr>devicePixelRatio := None\<rparr>) = JNumber 1"
  using getPixelRatio_feature_check [of page "JNumber 2"]
    getPixelRatio_feature_check [of "page\<lparr>devicePixelRatio := None\<rparr>"]
  by (simp add: page_def)




section \<open>Class specs, token by token\<close>

declare class_tokens.simps [simp del]

lemma class_tokens_Nil: "class_tokens [] = []"
  by (simp add: class_tokens.simps)

lemma class_tokens_skip: "isWhiteSpace c \<Longrightarrow> class_tokens (c # s) = class_tokens s"
  apply (subst class_tokens.simps)
  apply (subst (2) class_tokens.simps)
  apply simp
  done

lemma class_tokens_dropWhile: "class_tokens (dropWhile isWhiteSpace s) = class_tokens s"
  by (induction s) (simp_all add: class_tokens_skip)

lemma class_tokens_word:
  assumes "w \<noteq> []" and "\<forall>c \<in> set w. \<not> isWhiteSpace c" and "s = [] \<or> isWhiteSpace (hd s)"
  shows "class_tokens (w @ s) = w # class_tokens s"
proof -
  from assms(1) obtain a as where cons: "w @ s = a # as"
    by (cases w) auto
  have take: "takeWhile (\<lambda>x. \<not> isWhiteSpace x) (w @ s) = w"
    using assms(2,3) by (cases s) simp_all
  have drop: "dropWhile (\<lambda>x. \<not> isWhiteSpace x) (w @ s) = s"
    using assms(2,3) by (cases s) simp_all
  have "dropWhile isWhiteSpace (w @ s) = w @ s"
    using assms(1,2) by (cases w) simp_all
  then have "class_tokens (w @ s) =
      takeWhile (\<lambda>x. \<not> isWhiteSpace x) (w @ s)
      # class_tokens (dropWhile (\<lambda>x. \<not> isWhiteSpace x) (w @ s))"
    unfolding cons by (subst class_tokens.simps) (simp only: list.case)
  then show ?thesis
    by (simp only: take drop)
qed

lemma filter_split_whitespace:
  "\<forall>c \<in> set cur. \<not> isWhiteSpace c \<Longrightarrow>
   filter (\<lambda>t. t \<noteq> []) (split_whitespace cur s) = class_tokens (rev cur @ s)"
proof (induction cur s rule: split_whitespace.induct)
  case (1 cur)
  then show ?case
    using class_tokens_word [of "rev cur" "[]"]
    by (cases "cur = []") (simp_all add: class_tokens_Nil)
next
  case (2 cur c cs)
  show ?case
  proof (cases "isWhiteSpace c")
    case True
    with "2.IH"(1) have rest: "filter (\<lambda>t. t \<noteq> []) (split_whitespace [] (dropWhile isWhiteSpace cs))
        = class_tokens cs"
      by (simp add: class_tokens_dropWhile)
    show ?thesis
    proof (cases "cur = []")
      case True
      with \<open>isWhiteSpace c\<close> rest show ?thesis
        by (simp add: class_tokens_skip)
    next
      case False
      with "2.prems" \<open>isWhiteSpace c\<close> have "class_tokens (rev cur @ c # cs) = rev cur # class_tokens (c # cs)"
        by (intro class_tokens_word) simp_all
      with False \<open>isWhiteSpace c\<close> rest show ?thesis
        by (simp add: class_tokens_skip)
    qed
  next
    case False
    with "2.IH"(2) "2.prems" show ?thesis
      by simp
  qed
qed

lemma class_tokens_single:
  "t \<in> set (class_tokens s) \<Longrightarrow> t \<noteq> [] \<and> (\<forall>c \<in> set t. \<not> isWhiteSpace c)"
proof (induction s rule: class_tokens.induct)
  case (1 s)
  from "1.prems" have mem: "t \<in> set (case dropWhile isWhiteSpace s of
        [] \<Rightarrow> []
      | c # cs \<Rightarrow> takeWhile (\<lambda>x. \<not> isWhiteSpace x) (c # cs)
                 # class_tokens (dropWhile (\<lambda>x. \<not> isWhiteSpace x) (c # cs)))"
    by (subst (asm) class_tokens.simps)
  show ?case
  proof (cases "dropWhile isWhiteSpace s")
    case Nil
    with mem show ?thesis
      by (simp only: list.case list.set empty_iff)
  next
    case (Cons c cs)
    have c: "\<not> isWhiteSpace c"
      using hd_dropWhile [of isWhiteSpace s] Cons by simp
    from mem have "t = takeWhile (\<lambda>x. \<not> isWhiteSpace x) (c # cs) \<or>
        t \<in> set (class_tokens (dropWhile (\<lambda>x. \<not> isWhiteSpace x) (c # cs)))"
      unfolding Cons by (simp only: list.case set_ConsD list.set insert_iff)
    then show ?thesis
    proof
      assume t: "t = takeWhile (\<lambda>x. \<not> isWhiteSpace x) (c # cs)"
      then have "t \<noteq> []" using c by simp
      moreover from t have "\<forall>x \<in> set t. \<not> isWhiteSpace x"
        by (auto dest: set_takeWhileD)
      ultimately show ?thesis by simp
    next
      assume "t \<in> set (class_tokens (dropWhile (\<lambda>x. \<not> isWhiteSpace x) (c # cs)))"
      with Cons show ?thesis
        by (rule "1.IH")
    qed
  qed
qed

lemma class_tokens_blank: "\<forall>c \<in> set s. isWhiteSpace c \<Longrightarrow> class_tokens s = []"
  by (induction s) (simp_all add: class_tokens_Nil class_tokens_skip)

lemma applyMethodToClasses_tokens:
  "applyMethodToClasses method classList classes =
     forEach (invoke method) (class_tokens (case classes of None \<Rightarrow> [] | Some c \<Rightarrow> c)) classList"
  using filter_split_whitespace [of "[]"]
  by (simp add: applyMethodToClasses_def split_def)

lemma forEach_recording:
  "forEach (invoke method) ts (recording\<lparr>tokens := calls\<rparr>) =
     Inr (recording\<lparr>tokens := calls @ map (Pair method) ts\<rparr>)"
  by (induction ts arbitrary: calls) (simp_all add: invoke_def recording_def)

lemma class_tokens_split: "class_tokens s = filter (\<lambda>t. t \<noteq> []) (split_whitespace [] s)"
  using filter_split_whitespace [of "[]" s] by simp

lemma a_b_tokens:
  "class_tokens (utf16 ''a  b'') = [utf16 ''a'', utf16 ''b'']"
  "class_tokens (utf16 '' a  b '') = [utf16 ''a'', utf16 ''b'']"
  by (simp_all add: class_tokens_split utf16_def isWhiteSpace_def)

text \<open>
  Claim C5. \<open>addClasses\<close> and \<open>removeClasses\<close> call the handle's method once for each
  token of the class spec, in order: the tokens are the maximal runs of characters that
  are not whitespace, so each call passes one non-empty name that holds no whitespace.
  A recording handle receives exactly these calls. An empty, undefined or
  whitespace-only spec leaves the handle as it is, and \<open>a  b\<close> has exactly the tokens
  \<open>a\<close> and \<open>b\<close>.
\<close>

theorem classes_applied_token_by_token:
  "addClasses classList classes =
     forEach (invoke (utf16 ''add''))
       (class_tokens (case classes of None \<Rightarrow> [] | Some c \<Rightarrow> c)) classList \<and>
   removeClasses classList classes =
     forEach (invoke (utf16 ''remove''))
       (class_tokens (case classes of None \<Rightarrow> [] | Some c \<Rightarrow> c)) classList \<and>
   addClasses recording classes =
     Inr (recording\<lparr>tokens := map (Pair (utf16 ''add''))
       (class_tokens (case classes of None \<Rightarrow> [] | Some c \<Rightarrow> c))\<rparr>) \<and>
   removeClasses recording classes =
     Inr (recording\<lparr>tokens := map (Pair (utf16 ''remove''))
       (class_tokens (case classes of None \<Rightarrow> [] | Some c \<Rightarrow> c))\<rparr>) \<and>
   (\<forall>t \<in> set (class_tokens s). t \<noteq> [] \<and> (\<forall>c \<in> set t. \<not> isWhiteSpace c)) \<and>
   addClasses classList None = Inr classList \<and>
   removeClasses classList None = Inr classList \<and>
   addClasses classList (Some []) = Inr classList \<and>
   removeClasses classList (Some []) = Inr classList \<and>
   ((\<forall>c \<in> set s. isWhiteSpace c) \<longrightarrow>
      addClasses classList (Some s) = Inr classList \<and>
      removeClasses classList (Some s) = Inr classList) \<and>
   class_tokens (utf16 ''a  b'') = [utf16 ''a'', utf16 ''b'']"
proof -
  have rec: "forEach (invoke name) ts recording = Inr (recording\<lparr>tokens := map (Pair name) ts\<rparr>)"
    for name ts
    using forEach_recording [of name ts "[]"] by (simp add: recording_def)
  show ?thesis
    unfolding addClasses_def removeClasses_def applyMethodToClasses_tokens
    by (intro conjI impI ballI)
       (simp_all add: rec class_tokens_Nil class_tokens_blank class_tokens_single a_b_tokens)
qed

theorem classes_applied_token_by_token_witness:
  "addClasses recording (Some (utf16 '' a  b '')) =
     Inr (recording\<lparr>tokens := [(utf16 ''add'', utf16 ''a''), (utf16 ''add'', utf16 ''b'')]\<rparr>) \<and>
   addClasses (DOMTokenList [utf16 ''b'']) (Some (utf16 ''a  b'')) =
     Inr (DOMTokenList [utf16 ''b'', utf16 ''a'']) \<and>
   removeClasses (DOMTokenList [utf16 ''b'', utf16 ''c'']) (Some (utf16 ''a  b'')) =
     Inr (DOMTokenList [utf16 ''c'']) \<and>
   list_all isWhiteSpace (utf16 ''   '') \<and>
   addClasses (DOMTokenList [utf16 ''b'']) (Some (utf16 ''   '')) = Inr (DOMTokenList [utf16 ''b''])"
proof -
  note T = classes_applied_token_by_token
  note adds = T [THEN conjunct1]
  note removes = T [THEN conjunct2, THEN conjunct1]
  note records = T [THEN conjunct2, THEN conjunct2, THEN conjunct1]
  have 1: "addClasses recording (Some (utf16 '' a  b '')) =
     Inr (recording\<lparr>tokens := [(utf16 ''add'', utf16 ''a''), (utf16 ''add'', utf16 ''b'')]\<rparr>)"
    using records [of "Some (utf16 '' a  b '')"] by (simp add: a_b_tokens)
  have 2: "addClasses (DOMTokenList [utf16 ''b'']) (Some (utf16 ''a  b'')) =
     Inr (DOMTokenList [utf16 ''b'', utf16 ''a''])"
    unfolding adds [of "DOMTokenList [utf16 ''b'']" "Some (utf16 ''a  b'')"]
    by (simp only: option.case a_b_tokens)
       (simp add: invoke_def DOMTokenList_def token_add_def check_token_def utf16_def)
  have 3: "removeClasses (DOMTokenList [utf16 ''b'', utf16 ''c'']) (Some (utf16 ''a  b'')) =
     Inr (DOMTokenList [utf16 ''c''])"
    unfolding removes [of "DOMTokenList [utf16 ''b'', utf16 ''c'']" "Some (utf16 ''a  b'')"]
    by (simp only: option.case a_b_tokens)
       (simp add: invoke_def DOMTokenList_def token_remove_def check_token_def utf16_def)
  have 4: "\<forall>c \<in> set (utf16 ''   ''). isWhiteSpace c"
    by (simp add: utf16_def isWhiteSpace_def)
  then have 5: "addClasses (DOMTokenList [utf16 ''b'']) (Some (utf16 ''   '')) = Inr (DOMTokenList [utf16 ''b''])"
    using T [of "DOMTokenList [utf16 ''b'']" _ "utf16 ''   ''"] by blast
  from 4 have "list_all isWhiteSpace (utf16 ''   '')"
    by (simp add: list_all_iff)
  with 1 2 3 5 show ?thesis by blast
qed

section \<open>Sets of the language\<close>

lemma set_has_values: "set_has v S \<longleftrightarrow> v \<in> set (set_values S)"
  by (induction S) (auto simp: set_has_def set_values_def)

lemma set_values_add:
  "set_values (set_add v S) =
     (if v \<in> set (set_values S) then set_values S else set_values S @ [v])"
  using set_has_values [of v S]
  by (simp add: set_add_def set_has_def) (simp add: set_values_def)

lemma set_values_delete: "set_values (set_delete v S) = removeAll v (set_values S)"
proof (induction S)
  case Nil
  show ?case by (simp add: set_values_def set_delete_def)
next
  case (Cons a S)
  then show ?case
    by (cases a) (auto simp: set_values_def set_delete_def)
qed

lemma set_delete_absent: "\<not> set_has v S \<Longrightarrow> set_delete v S = S"
  by (induction S) (auto simp: set_has_def set_delete_def)

lemma set_has_delete: "\<not> set_has v (set_delete v S)"
  by (simp add: set_has_values set_values_delete)


section \<open>The registry's methods, unfolded\<close>

lemma add_unfold:
  "add el event handler useCapture s =
     (length (closures s),
      s\<lparr>listeners := addEventListener el event handler useCapture (listeners s),
        closures := closures s @ [DispatchFn el event handler useCapture],
        all := set_add (length (closures s)) (all s)\<rparr>)"
  by (simp add: add_def Let_def)

lemma call_unfold:
  "call fn s =
     (if fn < length (closures s)
      then Inr (s\<lparr>listeners := removeAll (subscription s fn) (listeners s)\<rparr>)
      else Inl TypeError)"
  by (simp add: call_def subscription_def key_of_def removeEventListener_def
      split: closure.splits)

lemma remove_unfold:
  "remove fn s =
     (if fn < length (closures s)
      then Inr (s\<lparr>listeners := removeAll (subscription s fn) (listeners s),
                  all := set_delete fn (all s)\<rparr>)
      else Inl TypeError)"
  by (simp add: remove_def call_unfold)

lemma fresh_not_tracked: "wf_state s \<Longrightarrow> length (closures s) \<notin> set (tracked s)"
  by (auto simp: wf_state_def)

lemma distinct_addEventListener:
  "distinct ls \<Longrightarrow> distinct (addEventListener el event handler useCapture ls)"
  by (simp add: addEventListener_def)

lemma set_addEventListener:
  "set (addEventListener el event handler useCapture ls) =
     insert (el, event, handler, flatten useCapture) (set ls)"
  by (auto simp: addEventListener_def)

lemma tracked_add:
  assumes "wf_state s" and "add el event handler useCapture s = (fn, s')"
  shows "fn = length (closures s)" and "tracked s' = tracked s @ [fn]"
    and "closures s' = closures s @ [DispatchFn el event handler useCapture]"
    and "listeners s' = addEventListener el event handler useCapture (listeners s)"
    and "wf_state s'"
    and "subscription s' fn = (el, event, handler, flatten useCapture)"
    and "\<forall>g \<in> set (tracked s). subscription s' g = subscription s g"
proof -
  from assms(2) show fn: "fn = length (closures s)"
    and cl: "closures s' = closures s @ [DispatchFn el event handler useCapture]"
    and ls: "listeners s' = addEventListener el event handler useCapture (listeners s)"
    by (auto simp: add_unfold)
  from assms(2) have "all s' = set_add fn (all s)"
    by (auto simp: add_unfold)
  with fresh_not_tracked [OF assms(1)] fn show tr: "tracked s' = tracked s @ [fn]"
    by (simp add: tracked_def set_values_add)
  from assms(1) have old: "\<forall>g \<in> set (tracked s). g < length (closures s)"
    by (simp add: wf_state_def)
  then show "\<forall>g \<in> set (tracked s). subscription s' g = subscription s g"
    by (simp add: subscription_def cl nth_append)
  show "subscription s' fn = (el, event, handler, flatten useCapture)"
    by (simp add: subscription_def cl fn key_of_def)
  from old have "\<forall>g \<in> set (tracked s). g < length (closures s')"
    by (auto simp: cl)
  with assms(1) fresh_not_tracked [OF assms(1)] show "wf_state s'"
    by (simp add: wf_state_def tr ls cl fn distinct_addEventListener)
qed


lemma tracked_remove:
  assumes "remove fn s = Inr s'"
  shows "fn < length (closures s)" and "tracked s' = removeAll fn (tracked s)"
    and "closures s' = closures s"
    and "listeners s' = removeAll (subscription s fn) (listeners s)"
    and "all s' = set_delete fn (all s)"
    and "subscription s' = subscription s"
  using assms
  by (auto simp: remove_unfold tracked_def set_values_delete subscription_def fun_eq_iff
      split: if_splits)

lemma wf_state_remove: "wf_state s \<Longrightarrow> remove fn s = Inr s' \<Longrightarrow> wf_state s'"
  using tracked_remove [of fn s s']
  by (auto simp: wf_state_def distinct_removeAll)

declare forEach_remove.simps [simp del]

section \<open>The loop of removeAll\<close>

lemma set_delete_member: "Some g \<in> set (set_delete fn S) \<longleftrightarrow> Some g \<in> set S \<and> g \<noteq> fn"
  by (auto simp: set_delete_def)

lemma set_delete_drop: "drop n (set_delete fn S) = set_delete fn (drop n S)"
  by (simp add: set_delete_def drop_map)

lemma forEach_remove_result:
  assumes "\<forall>fn. Some fn \<in> set (all s) \<longrightarrow> fn < length (closures s)"
  shows "\<exists>s'. forEach_remove i s = Inr s' \<and> closures s' = closures s \<and>
           listeners s' =
             filter (\<lambda>l. l \<notin> subscription s ` {fn. Some fn \<in> set (drop i (all s))}) (listeners s) \<and>
           all s' = map (\<lambda>e. if e \<in> set (drop i (all s)) then None else e) (all s)"
  using assms
proof (induction i s rule: forEach_remove.induct)
  case (1 index s)
  show ?case
  proof (cases "index < length (all s)")
    case False
    then have "forEach_remove index s = Inr s"
      by (subst forEach_remove.simps) simp
    with False show ?thesis
      by simp
  next
    case inside: True
    then have drop: "drop index (all s) = all s ! index # drop (Suc index) (all s)"
      by (simp add: Cons_nth_drop_Suc)
    show ?thesis
    proof (cases "all s ! index")
      case None
      with inside have step: "forEach_remove index s = forEach_remove (Suc index) s"
        by (subst forEach_remove.simps) simp
      from "1.IH"(1) [OF inside None "1.prems"] obtain s' where
        s': "forEach_remove (Suc index) s = Inr s'" "closures s' = closures s"
          "listeners s' = filter (\<lambda>l. l \<notin> subscription s ` {fn. Some fn \<in> set (drop (Suc index) (all s))})
             (listeners s)"
          "all s' = map (\<lambda>e. if e \<in> set (drop (Suc index) (all s)) then None else e) (all s)"
        by blast
      have "all s' = map (\<lambda>e. if e \<in> set (drop index (all s)) then None else e) (all s)"
        unfolding s'(4) drop None by (rule map_cong) auto
      with s' step show ?thesis
        by (simp add: drop None)
    next
      case (Some fn)
      with inside have mem: "Some fn \<in> set (all s)"
        by (metis nth_mem)
      with "1.prems" have alloc: "fn < length (closures s)"
        by simp
      define s1 where "s1 = s\<lparr>listeners := removeAll (subscription s fn) (listeners s),
                  all := set_delete fn (all s)\<rparr>"
      from alloc have rm: "remove fn s = Inr s1"
        by (simp add: remove_unfold s1_def)
      with inside Some have step: "forEach_remove index s = forEach_remove (Suc index) s1"
        by (subst forEach_remove.simps) simp
      have s1: "closures s1 = closures s" "all s1 = set_delete fn (all s)"
        "listeners s1 = removeAll (subscription s fn) (listeners s)"
        "subscription s1 = subscription s"
        by (simp_all add: s1_def subscription_def fun_eq_iff)
      have "\<forall>g. Some g \<in> set (all s1) \<longrightarrow> g < length (closures s1)"
        using "1.prems" by (simp add: s1 set_delete_member)
      from "1.IH"(2) [OF inside Some rm this] obtain s' where
        s': "forEach_remove (Suc index) s1 = Inr s'" "closures s' = closures s1"
          "listeners s' = filter (\<lambda>l. l \<notin> subscription s1 ` {g. Some g \<in> set (drop (Suc index) (all s1))})
             (listeners s1)"
          "all s' = map (\<lambda>e. if e \<in> set (drop (Suc index) (all s1)) then None else e) (all s1)"
        by blast
      define A where "A = {g. Some g \<in> set (drop (Suc index) (all s))}"
      have later: "{g. Some g \<in> set (drop (Suc index) (set_delete fn (all s)))} = A - {fn}"
        by (auto simp: A_def set_delete_drop set_delete_member)
      have now: "{g. Some g \<in> set (drop index (all s))} = insert fn A"
        by (auto simp: A_def drop Some)
      from s'(3) have "listeners s' =
          filter (\<lambda>l. l \<notin> subscription s ` (A - {fn}))
            (filter (\<lambda>l. l \<noteq> subscription s fn) (listeners s))"
        by (simp add: s1 later removeAll_filter_not_eq) (metis)
      also have "\<dots> = filter (\<lambda>l. l \<notin> subscription s ` insert fn A) (listeners s)"
        unfolding filter_filter by (rule filter_cong) auto
      finally have "listeners s' =
          filter (\<lambda>l. l \<notin> subscription s ` {g. Some g \<in> set (drop index (all s))}) (listeners s)"
        by (simp only: now)
      moreover have "all s' = map (\<lambda>e. if e \<in> set (drop index (all s)) then None else e) (all s)"
        unfolding s'(4) s1(2) set_delete_drop
        unfolding set_delete_def map_map drop Some
        by (rule map_cong) auto
      ultimately show ?thesis
        using s' step by (simp add: s1)
    qed
  qed
qed

lemma removeAll_listeners_result:
  assumes "wf_state s"
  shows "\<exists>s'. removeAll_listeners s = Inr s' \<and> closures s' = closures s \<and>
           listeners s' = filter (\<lambda>l. l \<notin> set (tracked_keys s)) (listeners s) \<and>
           tracked s' = [] \<and> set_size (all s') = 0 \<and> wf_state s'"
proof -
  have entries: "{fn. Some fn \<in> set (all s)} = set (tracked s)"
    using set_has_values [of _ "all s"] by (auto simp: set_has_def tracked_def)
  with assms have "\<forall>fn. Some fn \<in> set (all s) \<longrightarrow> fn < length (closures s)"
    by (auto simp: wf_state_def)
  from forEach_remove_result [OF this, of 0] obtain s' where
    s': "forEach_remove 0 s = Inr s'" "closures s' = closures s"
      "listeners s' = filter (\<lambda>l. l \<notin> subscription s ` {fn. Some fn \<in> set (all s)}) (listeners s)"
      "all s' = map (\<lambda>e. if e \<in> set (all s) then None else e) (all s)"
    by auto
  have "all s' = map (\<lambda>e. None) (all s)"
    unfolding s'(4) by (rule map_cong) auto
  then have empty: "tracked s' = []"
    by (simp add: tracked_def set_values_def)
  moreover have "listeners s' = filter (\<lambda>l. l \<notin> set (tracked_keys s)) (listeners s)"
    by (simp add: s'(3) entries tracked_keys_def)
  moreover from this assms empty have "wf_state s'"
    by (simp add: wf_state_def)
  ultimately show ?thesis
    using s' by (simp add: removeAll_listeners_def set_size_def tracked_def)
qed

section \<open>Every state of a registry is well formed\<close>

lemma reachable_wf_state: "reachable s \<Longrightarrow> wf_state s"
proof (induction rule: reachable.induct)
  case (created s)
  then show ?case
    by (simp add: wf_state_def tracked_def set_values_def)
next
  case (added s el event handler useCapture fn s')
  then show ?case
    by (blast intro: tracked_add(5))
next
  case (removed s fn s')
  then show ?case
    by (blast intro: wf_state_remove)
next
  case (removedAll s s')
  with removeAll_listeners_result [of s] show ?case
    by auto
next
  case (invoked s fn s')
  then show ?case
    by (auto simp: call_unfold wf_state_def tracked_def distinct_removeAll split: if_splits)
qed

lemma count_list_distinct: "distinct xs \<Longrightarrow> x \<in> set xs \<Longrightarrow> count_list xs x = 1"
  by (induction xs) (auto simp: count_list_0_iff)




text \<open>
  Claim C9. In any well-formed state (every state of a registry is one, see
  \<open>reachable_wf_state\<close>), two calls of \<open>add\<close> with the same element, event,
  handler and capture flag return two different handles, neither tracked before and
  both tracked after, so the tracked set grows by two; the second call leaves the
  platform's listeners as the first one left them, with the listener registered once,
  and both handles stand for that one listener.
\<close>

theorem add_twice_two_handles_one_listener:
  assumes "wf_state s"
    and "add el event handler useCapture s = (fn1, s1)"
    and "add el event handler useCapture s1 = (fn2, s2)"
  shows "fn1 \<noteq> fn2 \<and> \<not> set_has fn1 (all s) \<and> \<not> set_has fn2 (all s) \<and>
         set_has fn1 (all s2) \<and> set_has fn2 (all s2) \<and>
         set_size (all s2) = set_size (all s) + 2 \<and>
         listeners s2 = listeners s1 \<and>
         count_list (listeners s2) (el, event, handler, flatten useCapture) = 1 \<and>
         subscription s2 fn1 = (el, event, handler, flatten useCapture) \<and>
         subscription s2 fn2 = (el, event, handler, flatten useCapture)"
proof -
  note a1 = tracked_add [OF assms(1,2)]
  note a2 = tracked_add [OF a1(5) assms(3)]
  have fns: "fn1 = length (closures s)" "fn2 = Suc (length (closures s))"
    using a1(1,3) a2(1) by simp_all
  have t2: "tracked s2 = tracked s @ [fn1, fn2]"
    using a1(2) a2(2) by simp
  from assms(1) have old: "\<forall>g \<in> set (tracked s). g < length (closures s)"
    by (simp add: wf_state_def)
  have "fn1 \<noteq> fn2"
    using fns by simp
  moreover have "\<not> set_has fn1 (all s)" "\<not> set_has fn2 (all s)"
    using old fns by (auto simp: set_has_values tracked_def [symmetric])
  moreover have "set_has fn1 (all s2)" "set_has fn2 (all s2)"
    using t2 by (simp_all add: set_has_values tracked_def [symmetric])
  moreover have "set_size (all s2) = set_size (all s) + 2"
    using t2 by (simp add: set_size_def tracked_def [symmetric])
  moreover have same: "listeners s2 = listeners s1"
    by (simp add: a2(4) a1(4) addEventListener_def)
  moreover have "count_list (listeners s2) (el, event, handler, flatten useCapture) = 1"
    using a1(5) by (intro count_list_distinct)
      (simp_all add: same wf_state_def a1(4) set_addEventListener)
  moreover have "subscription s2 fn2 = (el, event, handler, flatten useCapture)"
    by (rule a2(6))
  moreover have "subscription s2 fn1 = (el, event, handler, flatten useCapture)"
    using a2(7) a1(2,6) by simp
  ultimately show ?thesis
    by blast
qed

theorem add_twice_two_handles_one_listener_witness:
  "wf_state new_registry \<and>
   add 1 (utf16 ''click'') 7 None new_registry = (0,
     \<lparr>listeners = [(1, utf16 ''click'', 7, False)],
      closures = [DispatchFn 1 (utf16 ''click'') 7 None], all = [Some 0]\<rparr>) \<and>
   add 1 (utf16 ''click'') 7 None
     \<lparr>listeners = [(1, utf16 ''click'', 7, False)],
      closures = [DispatchFn 1 (utf16 ''click'') 7 None], all = [Some 0]\<rparr> = (1,
     \<lparr>listeners = [(1, utf16 ''click'', 7, False)],
      closures = [DispatchFn 1 (utf16 ''click'') 7 None, DispatchFn 1 (utf16 ''click'') 7 None],
      all = [Some 0, Some 1]\<rparr>) \<and>
   set_size [Some (0::nat), Some 1] = set_size (all new_registry) + 2"
proof -
  let ?s1 = "\<lparr>listeners = [(1, utf16 ''click'', 7, False)],
      closures = [DispatchFn 1 (utf16 ''click'') 7 None], all = [Some 0]\<rparr>"
  let ?s2 = "\<lparr>listeners = [(1, utf16 ''click'', 7, False)],
      closures = [DispatchFn 1 (utf16 ''click'') 7 None, DispatchFn 1 (utf16 ''click'') 7 None],
      all = [Some 0, Some 1]\<rparr>"
  have w: "wf_state new_registry"
    by (simp add: wf_state_def new_registry_def tracked_def set_values_def)
  have 1: "add 1 (utf16 ''click'') 7 None new_registry = (0, ?s1)"
    by (simp add: add_unfold new_registry_def addEventListener_def flatten_def set_add_def)
  have 2: "add 1 (utf16 ''click'') 7 None ?s1 = (1, ?s2)"
    by (simp add: add_unfold addEventListener_def flatten_def set_add_def)
  from add_twice_two_handles_one_listener [OF w 1 2] w 1 2 show ?thesis
    by simp
qed

text \<open>
  Claim C10. A second \<open>remove\<close> of a handle that was already removed leaves the tracked
  set as it is: it does what invoking the handle's detach action does and nothing more.
  The same holds for any handle that is not tracked.
\<close>

theorem remove_twice_keeps_tracked_set:
  "(remove fn s = Inr s1 \<longrightarrow>
      (\<exists>s2. remove fn s1 = Inr s2 \<and> all s2 = all s1 \<and> call fn s1 = Inr s2 \<and>
            listeners s2 = removeAll (subscription s fn) (listeners s1))) \<and>
   (\<not> set_has fn (all s) \<longrightarrow> remove fn s = call fn s)"
proof (intro conjI impI)
  assume r: "remove fn s = Inr s1"
  note t = tracked_remove [OF r]
  from t(1,3) have alloc: "fn < length (closures s1)"
    by simp
  have "set_delete fn (all s1) = all s1"
    by (simp add: t(5) set_delete_absent set_has_delete)
  then have "remove fn s1 = call fn s1"
    by (simp add: remove_def call_unfold alloc)
  moreover have "call fn s1 = Inr (s1\<lparr>listeners := removeAll (subscription s fn) (listeners s1)\<rparr>)"
    by (simp add: call_unfold alloc t(6))
  ultimately show "\<exists>s2. remove fn s1 = Inr s2 \<and> all s2 = all s1 \<and> call fn s1 = Inr s2 \<and>
            listeners s2 = removeAll (subscription s fn) (listeners s1)"
    by simp
next
  assume "\<not> set_has fn (all s)"
  then show "remove fn s = call fn s"
    by (simp add: remove_def call_unfold set_delete_absent)
qed

theorem remove_twice_keeps_tracked_set_witness:
  "remove 0 \<lparr>listeners = [(1, utf16 ''click'', 7, False)],
      closures = [DispatchFn 1 (utf16 ''click'') 7 None], all = [Some 0]\<rparr> =
     Inr \<lparr>listeners = [], closures = [DispatchFn 1 (utf16 ''click'') 7 None], all = [None]\<rparr> \<and>
   remove 0 \<lparr>listeners = [], closures = [DispatchFn 1 (utf16 ''click'') 7 None], all = [None]\<rparr> =
     Inr \<lparr>listeners = [], closures = [DispatchFn 1 (utf16 ''click'') 7 None], all = [None]\<rparr>"
proof -
  let ?s = "\<lparr>listeners = [(1, utf16 ''click'', 7, False)],
      closures = [DispatchFn 1 (utf16 ''click'') 7 None], all = [Some 0]\<rparr>"
  let ?s1 = "\<lparr>listeners = [], closures = [DispatchFn 1 (utf16 ''click'') 7 None], all = [None]\<rparr>"
  have 1: "remove 0 ?s = Inr ?s1"
    by (simp add: remove_unfold subscription_def key_of_def flatten_def set_delete_def)
  from remove_twice_keeps_tracked_set [of 0 ?s ?s1, THEN conjunct1, THEN mp, OF 1]
  obtain s2 where "remove 0 ?s1 = Inr s2" "all s2 = all ?s1" "call 0 ?s1 = Inr s2"
    by blast
  then have "remove 0 ?s1 = Inr ?s1"
    by (simp add: call_unfold subscription_def key_of_def flatten_def)
  with 1 show ?thesis
    by simp
qed

section \<open>Add, then remove\<close>







section \<open>The registry's invariant\<close>








end
